theory Spec2Isabelle
  imports Complex_Main "HOL-Library.Log_Nat"
begin

section \<open>The duration parser (\<open>parseDuration\<close> in \<open>scripts/binance_buyer.go\<close>)\<close>

text \<open>
  Go strings are byte sequences, and so is \<open>string\<close> here. A \<open>time.Duration\<close> is an
  \<open>int64\<close> count of nanoseconds; it is modelled as an \<open>int\<close>, and every multiplication
  that can leave the 64-bit range is wrapped by \<open>i64\<close>, as Go's signed arithmetic wraps.
\<close>

datatype parse_error =
    InvalidFormat    \<comment> \<open>"invalid duration format. Use format like ..."\<close>
  | InvalidNumber    \<comment> \<open>"invalid number in duration: ..."\<close>
  | InvalidUnit      \<comment> \<open>"invalid time unit. Use s, m, H, D, W, or M"\<close>

definition is_digit :: "char \<Rightarrow> bool" where
  "is_digit c = (48 \<le> (of_char c :: nat) \<and> (of_char c :: nat) \<le> 57)"

text \<open>
  \<open>re.FindStringSubmatch\<close> for the one pattern \<open>^(\d+)([smhHdDwWM])$\<close>: the text is one or
  more ASCII digits followed by one byte of the class, and nothing else (\<open>$\<close> without the
  \<open>m\<close> flag matches only at the end of the text). The result is the pair of groups;
  \<open>None\<close> stands for the \<open>nil\<close> slice, whose length is not 3.
\<close>

definition FindStringSubmatch :: "string \<Rightarrow> (string \<times> char) option" where
  "FindStringSubmatch durationStr =
     (if durationStr = [] then None
      else let digits = butlast durationStr; unit = last durationStr
           in if digits \<noteq> [] \<and> list_all is_digit digits \<and> unit \<in> set ''smhHdDwWM''
              then Some (digits, unit) else None)"

definition digits_value :: "string \<Rightarrow> int" where
  "digits_value ds = foldl (\<lambda>acc c. 10 * acc + (int (of_char c) - 48)) 0 ds"

definition MaxInt64 :: int where
  "MaxInt64 = 9223372036854775807"

definition MinInt64 :: int where
  "MinInt64 = - 9223372036854775808"

text \<open>
  \<open>strconv.Atoi\<close> on a 64-bit platform: an optional sign, then decimal digits; \<open>None\<close> is
  the error it returns for a syntax error or for a value outside \<open>int\<close>.
\<close>

definition Atoi :: "string \<Rightarrow> int option" where
  "Atoi s =
     (let neg = (s \<noteq> [] \<and> hd s = CHR ''-'');
          ds = (if s \<noteq> [] \<and> (hd s = CHR ''-'' \<or> hd s = CHR ''+'') then tl s else s)
      in if ds = [] \<or> \<not> list_all is_digit ds then None
         else let v = (if neg then - digits_value ds else digits_value ds)
              in if v < MinInt64 \<or> MaxInt64 < v then None else Some v)"

definition i64 :: "int \<Rightarrow> int" where
  "i64 x = signed_take_bit 63 x"

definition Nanosecond :: int where "Nanosecond = 1"
definition Second :: int where "Second = 1000000000"
definition Minute :: int where "Minute = 60 * Second"
definition Hour :: int where "Hour = 60 * Minute"

definition parseDuration :: "string \<Rightarrow> parse_error + int" where
  "parseDuration durationStr =
     (case FindStringSubmatch durationStr of
        None \<Rightarrow> Inl InvalidFormat
      | Some (digits, unit) \<Rightarrow>
          (case Atoi digits of
             None \<Rightarrow> Inl InvalidNumber
           | Some v \<Rightarrow>
               if unit = CHR ''s'' then Inr (i64 (v * Second))
               else if unit = CHR ''m'' then Inr (i64 (v * Minute))
               else if unit = CHR ''H'' then Inr (i64 (v * Hour))
               else if unit = CHR ''D'' then Inr (i64 (i64 (v * 24) * Hour))
               else if unit = CHR ''W'' then Inr (i64 (i64 (i64 (v * 7) * 24) * Hour))
               else if unit = CHR ''M'' then Inr (i64 (i64 (i64 (v * 30) * 24) * Hour))
               else Inl InvalidUnit))"

text \<open>
  The grammar of the specification, in its own words: one or more digits, immediately
  followed by exactly one unit symbol from \<open>{s, m, H, D, W, M}\<close>, and no other character.
\<close>

definition in_grammar :: "string \<Rightarrow> bool" where
  "in_grammar txt =
     (\<exists>ds u. txt = ds @ [u] \<and> ds \<noteq> [] \<and> list_all is_digit ds \<and> u \<in> set ''smHDWM'')"

definition magnitude :: "string \<Rightarrow> int" where
  "magnitude txt = digits_value (butlast txt)"


section \<open>Binary64 arithmetic\<close>

text \<open>
  The amounts of the program are Go \<open>float64\<close> values. A finite value is modelled by the
  rational number it denotes, and the results of the operations are rounded to the
  nearest binary64 value, ties to even, with overflow to an infinity and gradual
  underflow. The two zeros are identified: they compare equal, and the only division of
  the program whose divisor can be zero divides by \<open>duration.Seconds()\<close>, which is never
  the negative zero.
\<close>

datatype f64 = Fin rat | PInf | NInf | NaN

definition expo :: "rat \<Rightarrow> int" where
  \<comment> \<open>the binary exponent \<open>e\<close> of a non-zero \<open>x\<close>: \<open>2^e \<le> |x| < 2^(e+1)\<close>\<close>
  "expo x = (if 1 \<le> \<bar>x\<bar> then bitlen \<lfloor>\<bar>x\<bar>\<rfloor> - 1 else - bitlen (\<lceil>1 / \<bar>x\<bar>\<rceil> - 1))"

definition qexp :: "rat \<Rightarrow> int" where
  \<comment> \<open>the exponent of the last of the 53 significant bits; the least binary64 exponent is -1022\<close>
  "qexp x = max (expo x) (- 1022) - 52"

definition quantum :: "rat \<Rightarrow> rat" where
  \<comment> \<open>the spacing of the binary64 values around \<open>x\<close>\<close>
  "quantum x = 2 powi (qexp x)"

definition round_even :: "rat \<Rightarrow> int" where
  "round_even y =
     (let f = \<lfloor>y\<rfloor>; d = y - of_int f
      in if d < 1 / 2 then f else if 1 / 2 < d then f + 1 else if even f then f else f + 1)"

definition fl :: "rat \<Rightarrow> f64" where
  "fl x =
     (if x = 0 then Fin 0
      else let r = of_int (round_even (x / quantum x)) * quantum x
           in if 2 powi 1024 \<le> \<bar>r\<bar> then (if 0 < x then PInf else NInf) else Fin r)"

definition is_f64 :: "rat \<Rightarrow> bool" where
  \<comment> \<open>\<open>x\<close> is the value of a finite binary64 number\<close>
  "is_f64 x = (x = 0 \<or> (of_int \<lfloor>x / quantum x\<rfloor> = x / quantum x \<and> \<bar>x\<bar> < 2 powi 1024))"

fun fneg :: "f64 \<Rightarrow> f64" where
  "fneg (Fin x) = Fin (- x)"
| "fneg PInf = NInf"
| "fneg NInf = PInf"
| "fneg NaN = NaN"

fun fadd :: "f64 \<Rightarrow> f64 \<Rightarrow> f64" where
  "fadd NaN _ = NaN"
| "fadd _ NaN = NaN"
| "fadd PInf NInf = NaN"
| "fadd NInf PInf = NaN"
| "fadd PInf _ = PInf"
| "fadd NInf _ = NInf"
| "fadd (Fin x) PInf = PInf"
| "fadd (Fin x) NInf = NInf"
| "fadd (Fin x) (Fin y) = fl (x + y)"

definition fsub :: "f64 \<Rightarrow> f64 \<Rightarrow> f64" where
  "fsub a b = fadd a (fneg b)"

fun fmul :: "f64 \<Rightarrow> f64 \<Rightarrow> f64" where
  "fmul NaN _ = NaN"
| "fmul _ NaN = NaN"
| "fmul PInf PInf = PInf"
| "fmul PInf NInf = NInf"
| "fmul NInf PInf = NInf"
| "fmul NInf NInf = PInf"
| "fmul PInf (Fin y) = (if y = 0 then NaN else if 0 < y then PInf else NInf)"
| "fmul NInf (Fin y) = (if y = 0 then NaN else if 0 < y then NInf else PInf)"
| "fmul (Fin x) PInf = (if x = 0 then NaN else if 0 < x then PInf else NInf)"
| "fmul (Fin x) NInf = (if x = 0 then NaN else if 0 < x then NInf else PInf)"
| "fmul (Fin x) (Fin y) = fl (x * y)"

fun fdiv :: "f64 \<Rightarrow> f64 \<Rightarrow> f64" where
  "fdiv NaN _ = NaN"
| "fdiv _ NaN = NaN"
| "fdiv PInf (Fin y) = (if 0 \<le> y then PInf else NInf)"
| "fdiv NInf (Fin y) = (if 0 \<le> y then NInf else PInf)"
| "fdiv PInf _ = NaN"
| "fdiv NInf _ = NaN"
| "fdiv (Fin x) PInf = Fin 0"
| "fdiv (Fin x) NInf = Fin 0"
| "fdiv (Fin x) (Fin y) =
     (if y = 0 then (if x = 0 then NaN else if 0 < x then PInf else NInf)
      else fl (x / y))"

fun flt :: "f64 \<Rightarrow> f64 \<Rightarrow> bool" where
  \<comment> \<open>the comparison \<open><\<close>: false as soon as an operand is NaN\<close>
  "flt NaN _ = False"
| "flt _ NaN = False"
| "flt (Fin x) (Fin y) = (x < y)"
| "flt (Fin x) PInf = True"
| "flt (Fin x) NInf = False"
| "flt PInf _ = False"
| "flt NInf NInf = False"
| "flt NInf _ = True"

fun fle :: "f64 \<Rightarrow> f64 \<Rightarrow> bool" where
  \<comment> \<open>the comparison \<open>\<le>\<close>\<close>
  "fle NaN _ = False"
| "fle _ NaN = False"
| "fle (Fin x) (Fin y) = (x \<le> y)"
| "fle (Fin x) PInf = True"
| "fle (Fin x) NInf = False"
| "fle PInf PInf = True"
| "fle PInf _ = False"
| "fle NInf _ = True"

definition round_half_away :: "rat \<Rightarrow> int" where
  "round_half_away x = (if 0 \<le> x then \<lfloor>x + 1 / 2\<rfloor> else - \<lfloor>- x + 1 / 2\<rfloor>)"

fun Round :: "f64 \<Rightarrow> f64" where
  \<comment> \<open>\<open>math.Round\<close>: the nearest integer, halves away from zero\<close>
  "Round (Fin x) = Fin (of_int (round_half_away x))"
| "Round a = a"

definition f64_of_int :: "int \<Rightarrow> f64" where
  \<comment> \<open>the conversion \<open>float64(n)\<close>\<close>
  "f64_of_int n = fl (of_int n)"

definition truncate :: "rat \<Rightarrow> int" where
  "truncate x = (if 0 \<le> x then \<lfloor>x\<rfloor> else \<lceil>x\<rceil>)"

fun int_of_f64 :: "f64 \<Rightarrow> int" where
  \<comment> \<open>the conversion \<open>int(f)\<close>: the fraction is discarded. Go leaves the result
      implementation-defined when the value does not fit; the smallest \<open>int64\<close> is what
      the amd64 conversion instruction delivers.\<close>
  "int_of_f64 (Fin x) =
     (if MinInt64 \<le> truncate x \<and> truncate x \<le> MaxInt64 then truncate x else MinInt64)"
| "int_of_f64 a = MinInt64"


section \<open>The scheduler (\<open>main\<close>, from the per-second amount to the final log line)\<close>

text \<open>
  The venue is the sequence of outcomes of the \<open>PlaceOrder\<close> calls of one run: \<open>venue i\<close>
  tells whether the call made in iteration \<open>i\<close> of the loop returns without error.
  What the run does is recorded as a list of events, in the order of the program.
  \<open>amountToUse\<close> is the amount that \<open>main\<close> has settled on before this point (the
  balance that the venue reported, or the \<open>total-amount\<close> flag), and \<open>duration\<close> is the
  result of \<open>parseDuration\<close>.
\<close>

type_synonym venue = "int \<Rightarrow> bool"

datatype event =
    PlaceOrder f64 f64 bool
      \<comment> \<open>the quote quantity of the call, \<open>amountToUse\<close> when it is made, and whether it succeeded\<close>
  | Sleep int           \<comment> \<open>\<open>time.Sleep\<close> of that many nanoseconds\<close>
  | Insufficient        \<comment> \<open>"Insufficient ... amount to use ... Stopping.", then \<open>break\<close>\<close>
  | NothingToDo         \<comment> \<open>"Nothing to do." or "Nothing to buy.", then \<open>return\<close>\<close>
  | Completed f64       \<comment> \<open>"Trading completed. Final ... amount remaining to use: ..."\<close>

definition tdiv :: "int \<Rightarrow> int \<Rightarrow> int" where
  \<comment> \<open>Go's integer division, which truncates towards zero\<close>
  "tdiv a b = sgn a * sgn b * (\<bar>a\<bar> div \<bar>b\<bar>)"

definition tmod :: "int \<Rightarrow> int \<Rightarrow> int" where
  "tmod a b = a - b * tdiv a b"

definition Seconds :: "int \<Rightarrow> f64" where
  \<comment> \<open>\<open>Duration.Seconds\<close> of package \<open>time\<close>\<close>
  "Seconds d =
     (let sec = tdiv d Second; nsec = tmod d Second
      in fadd (f64_of_int sec) (fdiv (f64_of_int nsec) (Fin 1000000000)))"

definition usdtPerSecond :: "f64 \<Rightarrow> int \<Rightarrow> f64" where
  "usdtPerSecond amountToUse duration =
     fdiv (Round (fmul (fdiv amountToUse (Seconds duration)) (Fin 100))) (Fin 100)"

definition nIntervals :: "f64 \<Rightarrow> int" where
  "nIntervals amountToUse = int_of_f64 amountToUse"

definition intervalDuration :: "f64 \<Rightarrow> int \<Rightarrow> int" where
  "intervalDuration amountToUse duration =
     i64 (int_of_f64 (fdiv (Seconds duration) (f64_of_int (nIntervals amountToUse))) * Second)"

definition numberOfTrades :: "int \<Rightarrow> int" where
  "numberOfTrades duration = int_of_f64 (Seconds duration)"

definition usdtPerTrade :: "f64 \<Rightarrow> int \<Rightarrow> f64" where
  "usdtPerTrade amountToUse duration =
     fdiv amountToUse (f64_of_int (numberOfTrades duration))"

datatype mode = LINEAR | QUANTIZED

definition mode_of :: "f64 \<Rightarrow> int \<Rightarrow> mode" where
  \<comment> \<open>the branch of \<open>if usdtPerSecond < 1.0\<close> that the run takes\<close>
  "mode_of amountToUse duration =
     (if flt (usdtPerSecond amountToUse duration) (Fin 1) then QUANTIZED else LINEAR)"

function quantized_loop :: "venue \<Rightarrow> int \<Rightarrow> int \<Rightarrow> int \<Rightarrow> f64 \<Rightarrow> f64 \<times> event list" where
  "quantized_loop venue interval n i amountToUse =
     (if i < n then
        if flt amountToUse (Fin 1) then (amountToUse, [Insufficient])
        else
          apsnd ((@) (PlaceOrder (Fin 1) amountToUse (venue i)
                      # (if i < n - 1 then [Sleep interval] else [])))
            (quantized_loop venue interval n (i + 1)
               (if venue i then fsub amountToUse (Fin 1) else amountToUse))
      else (amountToUse, []))"
  by pat_completeness auto
termination
  by (relation "measure (\<lambda>(venue, interval, n, i, amountToUse). nat (n - i))") auto

function linear_loop :: "venue \<Rightarrow> f64 \<Rightarrow> int \<Rightarrow> int \<Rightarrow> f64 \<Rightarrow> f64 \<times> event list" where
  "linear_loop venue perTrade n i amountToUse =
     (if i < n then
        if flt amountToUse perTrade then (amountToUse, [Insufficient])
        else
          apsnd ((@) [PlaceOrder perTrade amountToUse (venue i), Sleep Second])
            (linear_loop venue perTrade n (i + 1)
               (if venue i then fsub amountToUse perTrade else amountToUse))
      else (amountToUse, []))"
  by pat_completeness auto
termination
  by (relation "measure (\<lambda>(venue, perTrade, n, i, amountToUse). nat (n - i))") auto

definition finish :: "f64 \<times> event list \<Rightarrow> f64 \<times> event list" where
  \<comment> \<open>the last statement of \<open>main\<close>, reached from both loops\<close>
  "finish r = (fst r, snd r @ [Completed (fst r)])"

definition main_trade :: "venue \<Rightarrow> f64 \<Rightarrow> int \<Rightarrow> f64 \<times> event list" where
  \<comment> \<open>the final \<open>amountToUse\<close> and the events of the run\<close>
  "main_trade venue amountToUse duration =
     (if flt (usdtPerSecond amountToUse duration) (Fin 1) then
        if nIntervals amountToUse = 0 then (amountToUse, [NothingToDo])
        else finish (quantized_loop venue (intervalDuration amountToUse duration)
                       (nIntervals amountToUse) 0 amountToUse)
      else
        if numberOfTrades duration = 0 then (amountToUse, [NothingToDo])
        else finish (linear_loop venue (usdtPerTrade amountToUse duration)
                       (numberOfTrades duration) 0 amountToUse))"

fun orders :: "event list \<Rightarrow> (f64 \<times> f64 \<times> bool) list" where
  \<comment> \<open>the order attempts of a run, in order\<close>
  "orders [] = []"
| "orders (PlaceOrder q a ok # es) = (q, a, ok) # orders es"
| "orders (_ # es) = orders es"

fun sleeps :: "event list \<Rightarrow> int list" where
  "sleeps [] = []"
| "sleeps (Sleep d # es) = d # sleeps es"
| "sleeps (_ # es) = sleeps es"


text \<open>
  Reading the attempts of a run: what an attempt leaves of the budget, and the chain that
  the attempts of a run form, from the initial budget to the final one.
\<close>

fun is_amount :: "f64 \<Rightarrow> bool" where
  \<comment> \<open>a finite, non-negative binary64 value\<close>
  "is_amount (Fin x) = (is_f64 x \<and> 0 \<le> x)"
| "is_amount _ = False"

fun after :: "f64 \<times> f64 \<times> bool \<Rightarrow> f64" where
  \<comment> \<open>\<open>amountToUse\<close> after the attempt: decremented (in binary64) on success only\<close>
  "after (q, a, ok) = (if ok then fsub a q else a)"

fun chained :: "f64 \<Rightarrow> (f64 \<times> f64 \<times> bool) list \<Rightarrow> f64 \<Rightarrow> bool" where
  \<comment> \<open>each attempt sees what the previous one left, leaves no more than it saw, and the
      last one leaves the final budget\<close>
  "chained a [] a' = (a = a')"
| "chained a (x # xs) a' = (fst (snd x) = a \<and> fle (after x) a \<and> chained (after x) xs a')"

definition succeeded :: "f64 \<times> f64 \<times> bool \<Rightarrow> bool" where
  "succeeded x = snd (snd x)"

definition sliceCount :: "f64 \<Rightarrow> int \<Rightarrow> int" where
  \<comment> \<open>the number of attempts that the run schedules\<close>
  "sliceCount amountToUse duration =
     (if flt (usdtPerSecond amountToUse duration) (Fin 1) then nIntervals amountToUse
      else numberOfTrades duration)"

definition sliceSize :: "f64 \<Rightarrow> int \<Rightarrow> f64" where
  \<comment> \<open>the quote quantity of every attempt of the run\<close>
  "sliceSize amountToUse duration =
     (if flt (usdtPerSecond amountToUse duration) (Fin 1) then Fin 1
      else usdtPerTrade amountToUse duration)"

fun amount_of :: "f64 \<Rightarrow> rat" where
  "amount_of (Fin x) = x"
| "amount_of _ = 0"

definition spent :: "(f64 \<times> f64 \<times> bool) list \<Rightarrow> rat" where
  \<comment> \<open>the sum of the quantities of the successful attempts\<close>
  "spent xs = sum_list (map (\<lambda>x. amount_of (fst x)) (filter succeeded xs))"

definition every_third_fails :: venue where
  \<comment> \<open>a venue whose third, sixth, ... call fails\<close>
  "every_third_fails i = ((i + 1) mod 3 \<noteq> 0)"

definition always_succeeds :: venue where
  "always_succeeds i = True"


section \<open>Rules for evaluating the definitions on concrete inputs\<close>

lemma floor_rat_numeral: "\<lfloor>numeral a / numeral b :: rat\<rfloor> = numeral a div numeral b"
  using floor_divide_of_int_eq [of "numeral a" "numeral b", where ?'a = rat] by simp

lemma ceiling_rat_numeral:
  "\<lceil>numeral a / numeral b :: rat\<rceil> = - (- numeral a div numeral b)"
  using ceiling_divide_eq_div [of "numeral a" "numeral b", where ?'a = rat] by simp

lemma floor_rat_one_numeral: "\<lfloor>1 / numeral b :: rat\<rfloor> = 1 div numeral b"
  using floor_divide_of_int_eq [of 1 "numeral b", where ?'a = rat] by simp

lemma floor_rat_neg_numeral:
  "\<lfloor>- (numeral a / numeral b) :: rat\<rfloor> = - numeral a div numeral b"
  using floor_divide_of_int_eq [of "- numeral a" "numeral b", where ?'a = rat] by simp

lemmas fl_eval = fl_def quantum_def qexp_def expo_def round_even_def Let_def bitlen_def
  compute_floorlog floor_rat_numeral ceiling_rat_numeral floor_rat_one_numeral
  floor_rat_neg_numeral

lemmas run_eval = main_trade_def usdtPerSecond_def Seconds_def tdiv_def tmod_def Second_def
  f64_of_int_def nIntervals_def intervalDuration_def numberOfTrades_def usdtPerTrade_def
  finish_def fsub_def round_half_away_def truncate_def MinInt64_def MaxInt64_def i64_def
  mode_of_def sliceCount_def succeeded_def every_third_fails_def always_succeeds_def
  sliceSize_def spent_def

lemmas parse_eval = parseDuration_def FindStringSubmatch_def Atoi_def is_digit_def
  digits_value_def Minute_def Hour_def

section \<open>Facts about the parser\<close>

lemma in_grammar_code:
  "in_grammar txt =
     (txt \<noteq> [] \<and> butlast txt \<noteq> [] \<and> list_all is_digit (butlast txt) \<and> last txt \<in> set ''smHDWM'')"
proof
  assume "in_grammar txt"
  then obtain ds u where "txt = ds @ [u]" "ds \<noteq> []" "list_all is_digit ds" "u \<in> set ''smHDWM''"
    unfolding in_grammar_def by blast
  then show "txt \<noteq> [] \<and> butlast txt \<noteq> [] \<and> list_all is_digit (butlast txt) \<and> last txt \<in> set ''smHDWM''"
    by simp
next
  assume r: "txt \<noteq> [] \<and> butlast txt \<noteq> [] \<and> list_all is_digit (butlast txt) \<and> last txt \<in> set ''smHDWM''"
  then have "txt = butlast txt @ [last txt]" by simp
  with r show "in_grammar txt"
    unfolding in_grammar_def by blast
qed

lemma digits_value_snoc:
  "digits_value (ds @ [c]) = 10 * digits_value ds + (int (of_char c) - 48)"
  by (simp add: digits_value_def)

lemma digits_value_nonneg: "list_all is_digit ds \<Longrightarrow> 0 \<le> digits_value ds"
proof (induction ds rule: rev_induct)
  case Nil
  then show ?case by (simp add: digits_value_def)
next
  case (snoc c ds)
  then have "0 \<le> digits_value ds" and "48 \<le> (of_char c :: nat)"
    by (simp_all add: is_digit_def)
  then show ?case by (simp add: digits_value_snoc)
qed

lemma digit_not_sign: "is_digit c \<Longrightarrow> c \<noteq> CHR ''-'' \<and> c \<noteq> CHR ''+''"
  by (auto simp: is_digit_def)

lemma Atoi_digits:
  assumes "ds \<noteq> []" and "list_all is_digit ds"
  shows "Atoi ds = (if MaxInt64 < digits_value ds then None else Some (digits_value ds))"
proof -
  from assms have "is_digit (hd ds)" by (cases ds) simp_all
  then have "hd ds \<noteq> CHR ''-''" "hd ds \<noteq> CHR ''+''" using digit_not_sign by blast+
  moreover have "\<not> digits_value ds < MinInt64"
    using digits_value_nonneg [OF assms(2)] by (simp add: MinInt64_def)
  ultimately show ?thesis using assms by (simp add: Atoi_def Let_def)
qed

lemma parseDuration_in_grammar:
  assumes "in_grammar txt"
  shows "parseDuration txt =
           (if MaxInt64 < magnitude txt then Inl InvalidNumber
            else if last txt = CHR ''s'' then Inr (i64 (magnitude txt * Second))
            else if last txt = CHR ''m'' then Inr (i64 (magnitude txt * Minute))
            else if last txt = CHR ''H'' then Inr (i64 (magnitude txt * Hour))
            else if last txt = CHR ''D'' then Inr (i64 (i64 (magnitude txt * 24) * Hour))
            else if last txt = CHR ''W'' then Inr (i64 (i64 (i64 (magnitude txt * 7) * 24) * Hour))
            else Inr (i64 (i64 (i64 (magnitude txt * 30) * 24) * Hour)))"
proof -
  from assms have g: "txt \<noteq> []" "butlast txt \<noteq> []" "list_all is_digit (butlast txt)"
    "last txt \<in> set ''smHDWM''"
    by (simp_all add: in_grammar_code)
  from g have m: "FindStringSubmatch txt = Some (butlast txt, last txt)"
    by (auto simp: FindStringSubmatch_def Let_def)
  from g(4) have u: "last txt = CHR ''s'' \<or> last txt = CHR ''m'' \<or> last txt = CHR ''H''
      \<or> last txt = CHR ''D'' \<or> last txt = CHR ''W'' \<or> last txt = CHR ''M''"
    by auto
  show ?thesis
    using u by (auto simp: parseDuration_def m Atoi_digits [OF g(2,3)] magnitude_def)
qed

lemma parseDuration_not_in_grammar:
  assumes "\<not> in_grammar txt"
  shows "parseDuration txt = Inl InvalidFormat \<or> parseDuration txt = Inl InvalidNumber
           \<or> parseDuration txt = Inl InvalidUnit"
proof (cases "FindStringSubmatch txt")
  case None
  then show ?thesis by (simp add: parseDuration_def)
next
  case (Some p)
  obtain ds u where p: "p = (ds, u)" by (cases p)
  from Some p have f: "txt \<noteq> []" "ds = butlast txt" "u = last txt" "butlast txt \<noteq> []"
    "list_all is_digit (butlast txt)"
    by (auto simp: FindStringSubmatch_def Let_def split: if_splits)
  with assms have "last txt \<notin> set ''smHDWM''"
    by (auto simp: in_grammar_code)
  then have "u \<noteq> CHR ''s''" "u \<noteq> CHR ''m''" "u \<noteq> CHR ''H''" "u \<noteq> CHR ''D''"
    "u \<noteq> CHR ''W''" "u \<noteq> CHR ''M''"
    using f(3) by auto
  then show ?thesis
    using Some p by (auto simp: parseDuration_def split: option.splits)
qed


lemma parseDuration_unmatched:
  "FindStringSubmatch txt = None \<Longrightarrow> parseDuration txt = Inl InvalidFormat"
  by (simp add: parseDuration_def)

text \<open>
  Claim C7, as the code has it. The parser is a total function of its text. A text of
  the grammar whose digits denote at most \<open>2^63 - 1\<close> yields a span; a text of the
  grammar with a larger number is rejected by the check of \<open>strconv.Atoi\<close>'s error
  ("invalid number in duration"); every text outside the grammar is rejected with an error
  value as well, and that error is the format error whenever the text is not a digit
  string followed by one of \<open>s m h H d D w W M\<close>.
\<close>

theorem parseDuration_total:
  "(in_grammar txt \<and> magnitude txt \<le> MaxInt64 \<longrightarrow> (\<exists>d. parseDuration txt = Inr d))
   \<and> (in_grammar txt \<and> MaxInt64 < magnitude txt \<longrightarrow> parseDuration txt = Inl InvalidNumber)
   \<and> (\<not> in_grammar txt \<longrightarrow> (\<exists>e. parseDuration txt = Inl e))
   \<and> (FindStringSubmatch txt = None \<longrightarrow> parseDuration txt = Inl InvalidFormat)"
proof (intro conjI impI)
  assume "in_grammar txt \<and> magnitude txt \<le> MaxInt64"
  then show "\<exists>d. parseDuration txt = Inr d"
    by (simp add: parseDuration_in_grammar)
next
  assume "in_grammar txt \<and> MaxInt64 < magnitude txt"
  then show "parseDuration txt = Inl InvalidNumber"
    by (simp add: parseDuration_in_grammar)
next
  assume "\<not> in_grammar txt"
  then show "\<exists>e. parseDuration txt = Inl e"
    using parseDuration_not_in_grammar by blast
next
  assume "FindStringSubmatch txt = None"
  then show "parseDuration txt = Inl InvalidFormat"
    by (rule parseDuration_unmatched)
qed

lemma grammar_30s: "in_grammar ''30s'' \<and> magnitude ''30s'' \<le> MaxInt64"
  by (simp add: in_grammar_code is_digit_def magnitude_def digits_value_def MaxInt64_def)

lemma grammar_1h: "\<not> in_grammar ''1h''"
  by (simp add: in_grammar_code)

lemma grammar_big:
  "in_grammar ''99999999999999999999s'' \<and> MaxInt64 < magnitude ''99999999999999999999s''"
  by (simp add: in_grammar_code is_digit_def magnitude_def digits_value_def MaxInt64_def)

lemma unmatched_space: "FindStringSubmatch ''30s '' = None"
  by (simp add: FindStringSubmatch_def)

theorem parseDuration_total_witness:
  "(in_grammar ''30s'' \<and> magnitude ''30s'' \<le> MaxInt64) \<and> (\<exists>d. parseDuration ''30s'' = Inr d)
   \<and> (in_grammar ''99999999999999999998s'' \<and> MaxInt64 < magnitude ''99999999999999999998s'')
   \<and> parseDuration ''99999999999999999998s'' = Inl InvalidNumber
   \<and> \<not> in_grammar ''1h'' \<and> (\<exists>e. parseDuration ''1h'' = Inl e)
   \<and> FindStringSubmatch ''30s '' = None \<and> parseDuration ''30s '' = Inl InvalidFormat"
proof -
  have big: "in_grammar ''99999999999999999998s'' \<and> MaxInt64 < magnitude ''99999999999999999998s''"
    by (simp add: in_grammar_code is_digit_def magnitude_def digits_value_def MaxInt64_def)
  have "\<exists>d. parseDuration ''30s'' = Inr d"
    using parseDuration_total [of "''30s''"] grammar_30s by blast
  moreover have "parseDuration ''99999999999999999998s'' = Inl InvalidNumber"
    using parseDuration_total [of "''99999999999999999998s''"] big by blast
  moreover have "\<exists>e. parseDuration ''1h'' = Inl e"
    using parseDuration_total [of "''1h''"] grammar_1h by blast
  moreover have "parseDuration ''30s '' = Inl InvalidFormat"
    using parseDuration_total [of "''30s ''"] unmatched_space by blast
  ultimately show ?thesis
    using grammar_30s big grammar_1h unmatched_space by blast
qed

text \<open>
  Claim C7 as it is written fails: \<open>99999999999999999999s\<close> is twenty digits followed by
  the unit \<open>s\<close>, a text of the grammar, and the parser returns no span for it.
\<close>

theorem parseDuration_grammar_counterexample:
  "in_grammar ''99999999999999999999s''
   \<and> parseDuration ''99999999999999999999s'' = Inl InvalidNumber"
  using grammar_big by (simp add: parseDuration_in_grammar)

text \<open>
  Claim C8. The units are case-sensitive and stand for fixed numbers of seconds:
  \<open>30s\<close> is 30 seconds, \<open>2H\<close> is 7200, \<open>1D\<close> is 86400, \<open>1W\<close> is 604800, \<open>1M\<close> is 2592000
  (thirty days), and \<open>1m\<close> is 60 seconds, which is not what \<open>1M\<close> gives.
\<close>

theorem parseDuration_units:
  "parseDuration ''30s'' = Inr (30 * Second)
   \<and> parseDuration ''2H'' = Inr (7200 * Second)
   \<and> parseDuration ''1D'' = Inr (86400 * Second)
   \<and> parseDuration ''1W'' = Inr (604800 * Second)
   \<and> parseDuration ''1M'' = Inr (2592000 * Second)
   \<and> parseDuration ''1m'' = Inr (60 * Second)
   \<and> parseDuration ''1m'' \<noteq> parseDuration ''1M''
   \<and> Seconds (30 * Second) = Fin 30
   \<and> Seconds (7200 * Second) = Fin 7200
   \<and> Seconds (86400 * Second) = Fin 86400
   \<and> Seconds (604800 * Second) = Fin 604800
   \<and> Seconds (2592000 * Second) = Fin 2592000
   \<and> Seconds (60 * Second) = Fin 60"
  by (simp add: parse_eval fl_eval run_eval)

section \<open>Facts about binary64 rounding\<close>

lemma bitlen_pos: "0 < n \<Longrightarrow> 1 \<le> bitlen n"
  by (simp add: bitlen_alt_def)

lemma expo_bounds_ge1:
  assumes "1 \<le> \<bar>x\<bar>"
  shows "2 powi (expo x) \<le> \<bar>x\<bar> \<and> \<bar>x\<bar> < 2 powi (expo x + 1)"
proof -
  define n where "n = \<lfloor>\<bar>x\<bar>\<rfloor>"
  have n1: "1 \<le> n" using assms by (simp add: n_def)
  then have npos: "0 < n" by simp
  have e: "expo x = bitlen n - 1" using assms by (simp add: expo_def n_def)
  have k1: "1 \<le> bitlen n" using npos by (rule bitlen_pos)
  from bitlen_bounds [OF npos]
  have lo: "(2::int) ^ nat (bitlen n - 1) \<le> n" and hi: "n < 2 ^ nat (bitlen n)" by simp_all
  have "(2::rat) powi (expo x) = of_int (2 ^ nat (bitlen n - 1))"
    using k1 by (simp add: e power_int_nonneg_exp)
  also have "\<dots> \<le> of_int n" using lo by (simp only: of_int_le_iff)
  also have "\<dots> \<le> \<bar>x\<bar>" by (simp add: n_def)
  finally have A: "2 powi (expo x) \<le> \<bar>x\<bar>" .
  have "\<bar>x\<bar> < of_int (n + 1)" using floor_correct [of "\<bar>x\<bar>"] by (simp add: n_def)
  also have "\<dots> \<le> of_int (2 ^ nat (bitlen n))" using hi by (metis of_int_le_iff zless_imp_add1_zle)
  also have "\<dots> = (2::rat) powi (expo x + 1)"
    using k1 by (simp add: e power_int_nonneg_exp)
  finally have B: "\<bar>x\<bar> < 2 powi (expo x + 1)" .
  from A B show ?thesis by simp
qed

lemma expo_bounds_lt1:
  assumes "x \<noteq> 0" and "\<bar>x\<bar> < 1"
  shows "2 powi (expo x) \<le> \<bar>x\<bar> \<and> \<bar>x\<bar> < 2 powi (expo x + 1)"
proof -
  define y where "y = 1 / \<bar>x\<bar>"
  define n where "n = \<lceil>y\<rceil> - 1"
  have xpos: "0 < \<bar>x\<bar>" using assms by simp
  have y1: "1 < y" using assms xpos by (simp add: y_def)
  have n1: "1 \<le> n" using y1 by (simp add: n_def less_ceiling_iff)
  then have npos: "0 < n" by simp
  have ny: "of_int n < y" by (simp add: n_def) linarith
  have yn: "y \<le> of_int (n + 1)" by (simp add: n_def)
  have e: "expo x = - bitlen n" using assms by (simp add: expo_def n_def y_def)
  have k1: "1 \<le> bitlen n" using npos by (rule bitlen_pos)
  from bitlen_bounds [OF npos]
  have lo: "(2::int) ^ nat (bitlen n - 1) \<le> n" and hi: "n + 1 \<le> 2 ^ nat (bitlen n)" by simp_all
  have "y \<le> of_int (2 ^ nat (bitlen n))"
    using yn hi by (meson of_int_le_iff order_trans)
  then have "y \<le> 2 powi (bitlen n)" using k1 by (simp add: power_int_nonneg_exp)
  then have "inverse (2 powi (bitlen n)) \<le> inverse y"
    using y1 by (intro le_imp_inverse_le) simp_all
  then have A: "2 powi (expo x) \<le> \<bar>x\<bar>"
    by (simp add: e power_int_minus y_def)
  have "(of_int (2 ^ nat (bitlen n - 1)) :: rat) < y"
    using lo ny by (meson of_int_le_iff le_less_trans)
  then have "2 powi (bitlen n - 1) < y" using k1 by (simp add: power_int_nonneg_exp)
  then have "inverse y < inverse (2 powi (bitlen n - 1))"
    by (intro less_imp_inverse_less) simp_all
  moreover have "expo x + 1 = - (bitlen n - 1)" by (simp add: e)
  ultimately have B: "\<bar>x\<bar> < 2 powi (expo x + 1)"
    by (simp only: power_int_minus) (simp add: y_def)
  from A B show ?thesis by simp
qed

lemma expo_bounds:
  assumes "x \<noteq> 0"
  shows "2 powi (expo x) \<le> \<bar>x\<bar>" and "\<bar>x\<bar> < 2 powi (expo x + 1)"
  using expo_bounds_ge1 [of x] expo_bounds_lt1 [of x] assms by fastforce+

lemma pow2_less_imp: "(2::rat) powi a < 2 powi b \<Longrightarrow> a < b"
  by (metis linorder_not_less power_int_increasing one_le_numeral)

lemma expo_less:
  assumes "x \<noteq> 0" and "\<bar>x\<bar> < 2 powi k"
  shows "expo x < k"
proof -
  have "2 powi (expo x) < (2::rat) powi k"
    using expo_bounds(1) [OF assms(1)] assms(2) by simp
  then show ?thesis by (rule pow2_less_imp)
qed

lemma expo_ge:
  assumes "2 powi k \<le> \<bar>x\<bar>"
  shows "k \<le> expo x"
proof -
  have "0 < (2::rat) powi k" by simp
  with assms have "0 < \<bar>x\<bar>" by linarith
  then have "x \<noteq> 0" by simp
  then have "2 powi k < (2::rat) powi (expo x + 1)"
    using expo_bounds(2) [of x] assms by simp
  then have "k < expo x + 1" by (rule pow2_less_imp)
  then show ?thesis by simp
qed

lemma expo_mono:
  assumes "x \<noteq> 0" and "\<bar>x\<bar> \<le> \<bar>y\<bar>"
  shows "expo x \<le> expo y"
  using expo_ge [of "expo x" y] expo_bounds(1) [OF assms(1)] assms(2) by simp


lemma qexp_ge: "- 1074 \<le> qexp x"
  by (simp add: qexp_def)

lemma qexp_mono: "x \<noteq> 0 \<Longrightarrow> \<bar>x\<bar> \<le> \<bar>y\<bar> \<Longrightarrow> qexp x \<le> qexp y"
  using expo_mono [of x y] by (simp add: qexp_def)

lemma quantum_pos: "0 < quantum x"
  by (simp add: quantum_def)

lemma round_even_of_int: "round_even (of_int j) = j"
  by (simp add: round_even_def)

lemma round_even_le: "y \<le> of_int A \<Longrightarrow> round_even y \<le> A"
proof -
  assume a: "y \<le> of_int A"
  then have f: "\<lfloor>y\<rfloor> \<le> A" by (simp add: floor_le_iff) 
  show ?thesis
  proof (cases "\<lfloor>y\<rfloor> = A")
    case True
    then have "y = of_int \<lfloor>y\<rfloor>" using a floor_correct [of y] by linarith
    then have "round_even y = \<lfloor>y\<rfloor>" by (metis round_even_of_int)
    with True show ?thesis by simp
  next
    case False
    with f have "\<lfloor>y\<rfloor> + 1 \<le> A" by simp
    then show ?thesis by (simp add: round_even_def Let_def)
  qed
qed

lemma round_even_ge: "of_int A \<le> y \<Longrightarrow> A \<le> round_even y"
proof -
  assume "of_int A \<le> y"
  then have "A \<le> \<lfloor>y\<rfloor>" by (simp add: le_floor_iff)
  then show ?thesis by (simp add: round_even_def Let_def)
qed

lemma pow2_quotient_int:
  assumes "j \<le> k"
  shows "\<exists>B. of_int m * 2 powi k / 2 powi j = (of_int B :: rat)"
proof -
  have "(2::rat) powi k / 2 powi j = 2 powi (k - j)"
    by (simp add: power_int_diff)
  also have "\<dots> = 2 ^ nat (k - j)" using assms by (simp add: power_int_nonneg_exp)
  finally have e: "(2::rat) powi k / 2 powi j = 2 ^ nat (k - j)" .
  have "of_int m * 2 powi k / 2 powi j = of_int m * ((2::rat) powi k / 2 powi j)" by simp
  also have "\<dots> = of_int (m * 2 ^ nat (k - j))" unfolding e by simp
  finally show ?thesis ..
qed

lemma representable_multiple:
  assumes k: "- 1074 \<le> k" and m: "\<bar>m\<bar> \<le> 2 ^ 53" and x: "x = of_int m * 2 powi k"
  shows "\<exists>B. x / quantum x = of_int B"
proof (cases "\<bar>m\<bar> = 2 ^ 53")
  case True
  have ax: "\<bar>x\<bar> = 2 powi (k + 53)"
  proof -
    have "\<bar>x\<bar> = of_int \<bar>m\<bar> * 2 powi k" by (simp add: x abs_mult)
    also have "\<dots> = 2 powi 53 * 2 powi k" by (simp add: True)
    also have "\<dots> = 2 powi (k + 53)" by (simp add: power_int_add)
    finally show ?thesis .
  qed
  have "k + 53 \<le> expo x" using ax by (intro expo_ge) simp
  moreover have "expo x < k + 54"
  proof (rule expo_less)
    show "x \<noteq> 0" using ax by auto
    have "(2::rat) powi (k + 53) < 2 powi (k + 54)"
      by (intro power_int_strict_increasing) simp_all
    then show "\<bar>x\<bar> < 2 powi (k + 54)" by (simp add: ax)
  qed
  ultimately have "expo x = k + 53" by simp
  then have q: "qexp x = k + 1" using k by (simp add: qexp_def)
  have qx: "quantum x = 2 powi (k + 1)" by (simp only: quantum_def q)
  have "x / quantum x = x / 2 powi (k + 1)" by (simp only: qx)
  also have "\<dots> = of_int m * (2 powi k / 2 powi (k + 1))" by (simp add: x)
  also have "(2::rat) powi k / 2 powi (k + 1) = 1 / 2"
    by (simp add: power_int_add)
  finally have "x / quantum x = of_int m / 2" by simp
  moreover have "even m" using True by (metis even_abs_add_iff even_add even_numeral even_power zero_less_numeral)
  ultimately have "x / quantum x = of_int (m div 2)"
    by (metis of_int_numeral real_of_int_div dvd_def even_two_times_div_two of_int_mult nonzero_mult_div_cancel_left zero_neq_numeral)
  then show ?thesis ..
next
  case False
  show ?thesis
  proof (cases "m = 0")
    case True
    then have "x / quantum x = of_int 0" by (simp add: x)
    then show ?thesis ..
  next
    case m0: False
    from False m have ml: "\<bar>m\<bar> < 2 ^ 53" by simp
    have x0: "x \<noteq> 0" using m0 by (simp add: x)
    have "\<bar>x\<bar> = of_int \<bar>m\<bar> * 2 powi k" by (simp add: x abs_mult)
    also have "\<dots> < of_int (2 ^ 53) * 2 powi k"
      using ml by (intro mult_strict_right_mono) (simp_all only: of_int_less_iff zero_less_power_int zero_less_numeral)
    also have "\<dots> = 2 powi (k + 53)" by (simp add: power_int_add)
    finally have "expo x < k + 53" using x0 by (intro expo_less)
    then have "qexp x \<le> k" using k by (simp add: qexp_def)
    then show ?thesis
      unfolding quantum_def x by (rule pow2_quotient_int)
  qed
qed

lemma is_f64_0: "is_f64 0"
  by (simp add: is_f64_def)

lemma is_f64_iff:
  "is_f64 x \<longleftrightarrow> x = 0 \<or> ((\<exists>B. x / quantum x = of_int B) \<and> \<bar>x\<bar> < 2 powi 1024)"
proof -
  have "(of_int \<lfloor>x / quantum x\<rfloor> = x / quantum x) = (\<exists>B. x / quantum x = of_int B)"
    by (metis of_int_floor_cancel floor_of_int)
  then show ?thesis by (simp add: is_f64_def)
qed

lemma fl_repr: "is_f64 x \<Longrightarrow> fl x = Fin x"
proof (cases "x = 0")
  case True
  then show ?thesis by (simp add: fl_def)
next
  case False
  assume "is_f64 x"
  with False obtain B where B: "x / quantum x = of_int B" and lt: "\<bar>x\<bar> < 2 powi 1024"
    by (auto simp: is_f64_iff)
  have "round_even (x / quantum x) = B" by (simp only: B round_even_of_int)
  moreover have "of_int B * quantum x = x"
    using B quantum_pos [of x] by (simp add: field_simps)
  ultimately have "of_int (round_even (x / quantum x)) * quantum x = x" by simp
  then show ?thesis using False lt by (simp add: fl_def Let_def)
qed

lemma quotient_bound:
  assumes "x \<noteq> 0"
  shows "\<bar>x / quantum x\<bar> < 2 ^ 53"
proof -
  have "\<bar>x\<bar> < 2 powi (expo x + 1)" using assms by (rule expo_bounds(2))
  also have "\<dots> \<le> 2 powi (qexp x + 53)"
    by (intro power_int_increasing) (simp_all add: qexp_def)
  also have "\<dots> = quantum x * 2 ^ 53" by (simp add: quantum_def power_int_add)
  finally have "\<bar>x\<bar> / quantum x < 2 ^ 53"
    using quantum_pos [of x] by (simp add: pos_divide_less_eq mult.commute)
  then show ?thesis using quantum_pos [of x] by (simp add: abs_divide)
qed

lemma round_even_bound:
  assumes "x \<noteq> 0"
  shows "\<bar>round_even (x / quantum x)\<bar> \<le> 2 ^ 53"
proof -
  have "\<bar>x / quantum x\<bar> < 2 ^ 53" using assms by (rule quotient_bound)
  then have "x / quantum x \<le> 2 ^ 53" and "- (2 ^ 53) \<le> x / quantum x"
    by linarith+
  then have "x / quantum x \<le> of_int (2 ^ 53)" and "of_int (- (2 ^ 53)) \<le> x / quantum x"
    by simp_all
  then have "round_even (x / quantum x) \<le> 2 ^ 53" and "- (2 ^ 53) \<le> round_even (x / quantum x)"
    using round_even_le round_even_ge by blast+
  then show ?thesis by simp
qed

lemma fl_Fin_repr:
  assumes "fl x = Fin r"
  shows "is_f64 r"
proof (cases "x = 0")
  case True
  with assms show ?thesis by (simp add: fl_def is_f64_0)
next
  case False
  define m where "m = round_even (x / quantum x)"
  from assms False have r: "r = of_int m * 2 powi (qexp x)" and lt: "\<bar>r\<bar> < 2 powi 1024"
    by (auto simp: fl_def Let_def m_def quantum_def split: if_splits)
  have "\<bar>m\<bar> \<le> 2 ^ 53" unfolding m_def using False by (rule round_even_bound)
  with qexp_ge [of x] r have "\<exists>B. r / quantum r = of_int B"
    by (intro representable_multiple [where k = "qexp x" and m = m])
  with lt show ?thesis by (simp add: is_f64_iff)
qed

lemma fl_upper:
  assumes a: "is_f64 a" and x0: "0 \<le> x" and xa: "x \<le> a"
  shows "\<exists>r. fl x = Fin r \<and> 0 \<le> r \<and> r \<le> a \<and> is_f64 r"
proof (cases "x = 0")
  case True
  then show ?thesis using x0 xa by (simp add: fl_def is_f64_0)
next
  case False
  with x0 xa have xpos: "0 < x" and apos: "0 < a" by simp_all
  from a apos obtain A where A: "a / quantum a = of_int A" and lt: "\<bar>a\<bar> < 2 powi 1024"
    by (auto simp: is_f64_iff)
  have a_eq: "a = of_int A * 2 powi (qexp a)"
    using A quantum_pos [of a] by (simp add: quantum_def field_simps)
  have "qexp x \<le> qexp a" using False xpos xa by (intro qexp_mono) simp_all
  then obtain B where "of_int A * 2 powi (qexp a) / 2 powi (qexp x) = (of_int B :: rat)"
    using pow2_quotient_int by blast
  then have B: "a / quantum x = of_int B" by (simp add: quantum_def flip: a_eq)
  define m where "m = round_even (x / quantum x)"
  define r where "r = of_int m * quantum x"
  have "x / quantum x \<le> a / quantum x"
    using xa quantum_pos [of x] by (simp add: divide_right_mono)
  then have mB: "m \<le> B" unfolding m_def B by (rule round_even_le)
  have "of_int 0 \<le> x / quantum x" using x0 quantum_pos [of x] by simp
  then have m0: "0 \<le> m" unfolding m_def by (rule round_even_ge)
  have r0: "0 \<le> r" using m0 quantum_pos [of x] by (simp add: r_def)
  have "r \<le> of_int B * quantum x"
    unfolding r_def using mB quantum_pos [of x] by (intro mult_right_mono) simp_all
  also have "\<dots> = a" using B quantum_pos [of x] by (simp add: field_simps)
  finally have ra: "r \<le> a" .
  with r0 lt have "\<bar>r\<bar> < 2 powi 1024" by simp
  then have f: "fl x = Fin r" using False by (simp add: fl_def Let_def r_def m_def)
  with r0 ra fl_Fin_repr show ?thesis by blast
qed

lemma is_f64_minus_one:
  assumes a: "is_f64 a" and a1: "1 \<le> a" and a53: "a < 2 ^ 53"
  shows "is_f64 (a - 1)"
proof -
  have a0: "a \<noteq> 0" using a1 by simp
  from a a0 obtain A where A: "a / quantum a = of_int A" and lt: "\<bar>a\<bar> < 2 powi 1024"
    by (auto simp: is_f64_iff)
  have e0: "0 \<le> expo a" using a1 by (intro expo_ge) simp
  have "expo a < 53" using a0 a1 a53 by (intro expo_less) simp_all
  with e0 have q: "qexp a = expo a - 52" and q0: "qexp a \<le> 0" and q52: "- 52 \<le> qexp a"
    by (simp_all add: qexp_def)
  have a_eq: "a = of_int A * 2 powi (qexp a)"
    using A quantum_pos [of a] by (simp add: quantum_def field_simps)
  have one: "(1::rat) = of_int (2 ^ nat (- qexp a)) * 2 powi (qexp a)"
  proof -
    have "(2::rat) powi (- qexp a) * 2 powi (qexp a) = 1"
      by (simp add: power_int_minus)
    moreover have "(2::rat) powi (- qexp a) = 2 ^ nat (- qexp a)"
      using q0 by (simp add: power_int_nonneg_exp)
    ultimately show ?thesis by simp
  qed
  define m where "m = A - 2 ^ nat (- qexp a)"
  have m_eq: "a - 1 = of_int m * 2 powi (qexp a)"
  proof -
    have "of_int m * 2 powi (qexp a) =
        of_int A * 2 powi (qexp a) - of_int (2 ^ nat (- qexp a)) * (2::rat) powi (qexp a)"
      by (simp add: m_def algebra_simps)
    then show ?thesis using a_eq one by simp
  qed
  have "0 \<le> of_int m * (2::rat) powi (qexp a)" using a1 m_eq by simp
  moreover have "(0::rat) < 2 powi (qexp a)" by simp
  ultimately have "(0::rat) \<le> of_int m" by (metis zero_le_mult_iff not_less)
  then have m0: "0 \<le> m" by simp
  have "\<bar>of_int A\<bar> < (2::rat) ^ 53" using quotient_bound [OF a0] A by simp
  then have "(of_int A :: rat) < of_int (2 ^ 53)" by simp
  then have "A < 2 ^ 53" by (simp only: of_int_less_iff)
  moreover have "(0::int) \<le> 2 ^ nat (- qexp a)" by simp
  ultimately have "m \<le> 2 ^ 53" unfolding m_def by linarith
  with m0 have "\<bar>m\<bar> \<le> 2 ^ 53" by simp
  moreover have "- 1074 \<le> qexp a" using q52 by simp
  ultimately have "\<exists>B. (a - 1) / quantum (a - 1) = of_int B"
    using m_eq by (intro representable_multiple [where k = "qexp a" and m = m])
  moreover have "\<bar>a - 1\<bar> < 2 powi 1024" using a1 lt by linarith
  ultimately show ?thesis by (simp add: is_f64_iff)
qed

lemma fl_lower_pow2:
  assumes "2 powi k \<le> x" and "- 1022 \<le> k"
  shows "fle (Fin (2 powi k)) (fl x)"
proof -
  have p: "(0::rat) < 2 powi k" by simp
  with assms have xpos: "0 < x" by linarith
  then have x0: "x \<noteq> 0" by simp
  have ke: "k \<le> expo x" using assms(1) xpos by (intro expo_ge) simp
  with assms(2) have q: "qexp x = expo x - 52" by (simp add: qexp_def)
  define m where "m = round_even (x / quantum x)"
  define r where "r = of_int m * quantum x"
  have "2 powi (expo x) \<le> x" using expo_bounds(1) [OF x0] xpos by simp
  then have "2 powi (expo x) / quantum x \<le> x / quantum x"
    using quantum_pos [of x] by (simp add: divide_right_mono)
  moreover have "2 powi (expo x) / quantum x = (of_int (2 ^ 52) :: rat)"
    by (simp add: quantum_def q power_int_diff)
  ultimately have "of_int (2 ^ 52) \<le> x / quantum x" by simp
  then have "2 ^ 52 \<le> m" unfolding m_def by (rule round_even_ge)
  then have "(of_int (2 ^ 52) :: rat) \<le> of_int m" by (simp only: of_int_le_iff)
  then have "of_int (2 ^ 52) * quantum x \<le> r"
    unfolding r_def using quantum_pos [of x] by (intro mult_right_mono) simp_all
  moreover have "of_int (2 ^ 52) * quantum x = 2 powi (expo x)"
    by (simp add: quantum_def q power_int_diff)
  moreover have "(2::rat) powi k \<le> 2 powi (expo x)"
    using ke by (intro power_int_increasing) simp_all
  ultimately have "2 powi k \<le> r" by linarith
  then show ?thesis using x0 xpos by (simp add: fl_def Let_def r_def m_def)
qed

lemma fl_ge_one: "1 \<le> x \<Longrightarrow> fle (Fin 1) (fl x)"
  using fl_lower_pow2 [of 0 x] by simp

lemma is_f64_pow63: "is_f64 (2 ^ 63)"
  by (simp add: is_f64_def fl_eval)

lemma int_of_f64_range: "MinInt64 \<le> int_of_f64 a \<and> int_of_f64 a \<le> MaxInt64"
  by (cases a) (simp_all add: MinInt64_def MaxInt64_def)

lemma f64_of_int_pos:
  assumes "1 \<le> n" and "n \<le> MaxInt64"
  shows "\<exists>r. f64_of_int n = Fin r \<and> 1 \<le> r"
proof -
  have "(of_int n :: rat) \<le> 2 ^ 63"
  proof -
    have "n \<le> 2 ^ 63" using assms(2) by (simp add: MaxInt64_def)
    then have "(of_int n :: rat) \<le> of_int (2 ^ 63)" by (simp only: of_int_le_iff)
    then show ?thesis by simp
  qed
  moreover have "(0::rat) \<le> of_int n" using assms(1) by simp
  ultimately obtain r where r: "fl (of_int n) = Fin r"
    using fl_upper [OF is_f64_pow63] by blast
  have "(1::rat) \<le> of_int n" using assms(1) by simp
  then have "fle (Fin 1) (fl (of_int n))" by (rule fl_ge_one)
  with r show ?thesis by (simp add: f64_of_int_def)
qed

section \<open>Facts about the two loops\<close>

declare linear_loop.simps [simp del] quantized_loop.simps [simp del]

lemma fle_refl: "is_amount a \<Longrightarrow> fle a a"
  by (cases a) simp_all

lemma fle_trans: "fle a b \<Longrightarrow> fle b c \<Longrightarrow> fle a c"
  by (cases a; cases b; cases c) simp_all

lemma not_flt_fle: "is_amount a \<Longrightarrow> is_amount s \<Longrightarrow> \<not> flt a s \<Longrightarrow> fle s a"
  by (cases a; cases s) simp_all

lemma fsub_amount:
  assumes "is_amount a" and "is_amount s" and "\<not> flt a s"
  shows "is_amount (fsub a s) \<and> fle (fsub a s) a"
proof -
  from assms obtain x y where a: "a = Fin x" and s: "s = Fin y"
    and x: "is_f64 x" "0 \<le> x" and y: "0 \<le> y" "y \<le> x"
    by (cases a; cases s) simp_all
  have "0 \<le> x - y" and "x - y \<le> x" using y by simp_all
  with x(1) obtain r where "fl (x - y) = Fin r" "0 \<le> r" "r \<le> x" "is_f64 r"
    using fl_upper by blast
  then show ?thesis by (simp add: a s fsub_def)
qed

lemma fdiv_amount:
  assumes "is_amount a" and "1 \<le> n" and "n \<le> MaxInt64"
  shows "is_amount (fdiv a (f64_of_int n))"
proof -
  from assms(1) obtain x where a: "a = Fin x" and x: "is_f64 x" "0 \<le> x"
    by (cases a) simp_all
  from f64_of_int_pos [OF assms(2,3)] obtain r where r: "f64_of_int n = Fin r" "1 \<le> r"
    by blast
  have "0 \<le> x / r" using x(2) r(2) by simp
  moreover have "x / r \<le> x"
  proof -
    have "x * 1 \<le> x * r" using x(2) r(2) by (intro mult_left_mono) simp_all
    then show ?thesis using r(2) by (simp add: pos_divide_le_eq)
  qed
  ultimately obtain q where "fl (x / r) = Fin q" "0 \<le> q" "q \<le> x" "is_f64 q"
    using fl_upper [OF x(1)] by blast
  then show ?thesis using r by (simp add: a)
qed

lemma is_amount_one: "is_amount (Fin 1)"
  by (simp add: is_f64_def fl_eval)

lemma linear_loop_done: "\<not> i < n \<Longrightarrow> linear_loop venue s n i a = (a, [])"
  by (simp add: linear_loop.simps)

lemma linear_loop_stop:
  "i < n \<Longrightarrow> flt a s \<Longrightarrow> linear_loop venue s n i a = (a, [Insufficient])"
  by (simp add: linear_loop.simps)

lemma linear_loop_step:
  "i < n \<Longrightarrow> \<not> flt a s \<Longrightarrow>
   linear_loop venue s n i a =
     (fst (linear_loop venue s n (i + 1) (after (s, a, venue i))),
      PlaceOrder s a (venue i) # Sleep Second
        # snd (linear_loop venue s n (i + 1) (after (s, a, venue i))))"
  by (subst linear_loop.simps) (simp add: apsnd_def map_prod_def split_beta)

lemma quantized_loop_done: "\<not> i < n \<Longrightarrow> quantized_loop venue iv n i a = (a, [])"
  by (simp add: quantized_loop.simps)

lemma quantized_loop_stop:
  "i < n \<Longrightarrow> flt a (Fin 1) \<Longrightarrow> quantized_loop venue iv n i a = (a, [Insufficient])"
  by (simp add: quantized_loop.simps)

lemma quantized_loop_step:
  "i < n \<Longrightarrow> \<not> flt a (Fin 1) \<Longrightarrow>
   quantized_loop venue iv n i a =
     (fst (quantized_loop venue iv n (i + 1) (after (Fin 1, a, venue i))),
      PlaceOrder (Fin 1) a (venue i) # (if i < n - 1 then [Sleep iv] else [])
        @ snd (quantized_loop venue iv n (i + 1) (after (Fin 1, a, venue i))))"
  by (subst quantized_loop.simps) (simp add: apsnd_def map_prod_def split_beta)

lemma orders_append: "orders (xs @ ys) = orders xs @ orders ys"
  by (induction xs rule: orders.induct) simp_all


lemma quantized_as_linear:
  "fst (quantized_loop venue iv n i a) = fst (linear_loop venue (Fin 1) n i a)
   \<and> orders (snd (quantized_loop venue iv n i a)) = orders (snd (linear_loop venue (Fin 1) n i a))
   \<and> (Insufficient \<in> set (snd (quantized_loop venue iv n i a))
        \<longleftrightarrow> Insufficient \<in> set (snd (linear_loop venue (Fin 1) n i a)))"
proof (induction venue iv n i a rule: quantized_loop.induct)
  case (1 venue iv n i a)
  show ?case
  proof (cases "i < n")
    case False
    then show ?thesis by (simp add: quantized_loop_done linear_loop_done)
  next
    case True
    show ?thesis
    proof (cases "flt a (Fin 1)")
      case t: True
      with True show ?thesis by (simp add: quantized_loop_stop linear_loop_stop)
    next
      case f: False
      from "1.IH" [OF True f] True f show ?thesis
        by (simp add: quantized_loop_step linear_loop_step orders_append)
    qed
  qed
qed

lemma linear_loop_amounts:
  "is_amount s \<Longrightarrow> is_amount a \<Longrightarrow>
     is_amount (fst (linear_loop venue s n i a))
     \<and> fle (fst (linear_loop venue s n i a)) a
     \<and> chained a (orders (snd (linear_loop venue s n i a))) (fst (linear_loop venue s n i a))
     \<and> list_all (\<lambda>x. fle (fst x) (fst (snd x))) (orders (snd (linear_loop venue s n i a)))"
proof (induction venue s n i a rule: linear_loop.induct)
  case (1 venue s n i a)
  show ?case
  proof (cases "i < n")
    case False
    then show ?thesis using "1.prems" by (simp add: linear_loop_done fle_refl)
  next
    case True
    show ?thesis
    proof (cases "flt a s")
      case t: True
      with True show ?thesis using "1.prems" by (simp add: linear_loop_stop fle_refl)
    next
      case f: False
      have sub: "is_amount (fsub a s) \<and> fle (fsub a s) a"
        using "1.prems" f by (intro fsub_amount)
      then have nx: "is_amount (after (s, a, venue i)) \<and> fle (after (s, a, venue i)) a"
        using "1.prems" by (simp add: fle_refl)
      have sa: "fle s a" using "1.prems" f by (intro not_flt_fle)
      from "1.IH" [OF True f "1.prems"(1)] nx
      have ih: "is_amount (fst (linear_loop venue s n (i + 1) (after (s, a, venue i))))
     \<and> fle (fst (linear_loop venue s n (i + 1) (after (s, a, venue i)))) (after (s, a, venue i))
     \<and> chained (after (s, a, venue i)) (orders (snd (linear_loop venue s n (i + 1) (after (s, a, venue i)))))
          (fst (linear_loop venue s n (i + 1) (after (s, a, venue i))))
     \<and> list_all (\<lambda>x. fle (fst x) (fst (snd x))) (orders (snd (linear_loop venue s n (i + 1) (after (s, a, venue i)))))"
        by simp
      then have "fle (fst (linear_loop venue s n (i + 1) (after (s, a, venue i)))) a"
        using nx fle_trans by blast
      with ih nx sa show ?thesis
        by (simp add: linear_loop_step [OF True f])
    qed
  qed
qed

lemma linear_loop_events:
  "map fst (orders (snd (linear_loop venue s n i a)))
      = replicate (length (orders (snd (linear_loop venue s n i a)))) s
   \<and> sleeps (snd (linear_loop venue s n i a))
      = replicate (length (orders (snd (linear_loop venue s n i a)))) Second"
proof (induction venue s n i a rule: linear_loop.induct)
  case (1 venue s n i a)
  show ?case
  proof (cases "i < n")
    case False
    then show ?thesis by (simp add: linear_loop_done)
  next
    case True
    show ?thesis
    proof (cases "flt a s")
      case t: True
      with True show ?thesis by (simp add: linear_loop_stop)
    next
      case f: False
      from "1.IH" [OF True f] show ?thesis
        by (simp add: linear_loop_step [OF True f])
    qed
  qed
qed


lemma linear_loop_count:
  "(Insufficient \<in> set (snd (linear_loop venue s n i a)) \<longrightarrow>
      int (length (orders (snd (linear_loop venue s n i a)))) < n - i
      \<and> last (snd (linear_loop venue s n i a)) = Insufficient
      \<and> flt (fst (linear_loop venue s n i a)) s)
   \<and> (Insufficient \<notin> set (snd (linear_loop venue s n i a)) \<longrightarrow> i \<le> n \<longrightarrow>
      int (length (orders (snd (linear_loop venue s n i a)))) = n - i)"
proof (induction venue s n i a rule: linear_loop.induct)
  case (1 venue s n i a)
  show ?case
  proof (cases "i < n")
    case False
    then show ?thesis by (simp add: linear_loop_done)
  next
    case True
    show ?thesis
    proof (cases "flt a s")
      case t: True
      with True show ?thesis by (simp add: linear_loop_stop)
    next
      case f: False
      from "1.IH" [OF True f] True show ?thesis
        by (auto simp add: linear_loop_step [OF True f])
    qed
  qed
qed


lemma unit_loop_exact:
  "is_f64 x \<Longrightarrow> 0 \<le> x \<Longrightarrow> x < 2 ^ 53 \<Longrightarrow>
   fst (linear_loop venue (Fin 1) n i (Fin x))
     = Fin (x - of_nat (length (filter succeeded (orders (snd (linear_loop venue (Fin 1) n i (Fin x)))))))"
proof (induction "nat (n - i)" arbitrary: i x)
  case 0
  then have "\<not> i < n" by simp
  then show ?case by (simp add: linear_loop_done)
next
  case (Suc k)
  then have lt: "i < n" by simp
  show ?case
  proof (cases "flt (Fin x) (Fin 1)")
    case True
    with lt show ?thesis by (simp add: linear_loop_stop)
  next
    case False
    then have x1: "1 \<le> x" by simp
    have k: "k = nat (n - (i + 1))" using Suc.hyps(2) by simp
    show ?thesis
    proof (cases "venue i")
      case True
      have r: "is_f64 (x - 1)" using Suc.prems(1) x1 Suc.prems(3) by (rule is_f64_minus_one)
      then have "fsub (Fin x) (Fin 1) = Fin (x - 1)" by (simp add: fsub_def fl_repr)
      moreover have "0 \<le> x - 1" "x - 1 < 2 ^ 53" using x1 Suc.prems(3) by simp_all
      ultimately show ?thesis
        using Suc.hyps(1) [OF k r] True
        by (simp add: linear_loop_step [OF lt False] succeeded_def)
    next
      case f: False
      then show ?thesis
        using Suc.hyps(1) [OF k Suc.prems]
        by (simp add: linear_loop_step [OF lt False] succeeded_def)
    qed
  qed
qed

section \<open>The seconds of a duration\<close>









lemma truncate_nonneg: "0 \<le> x \<Longrightarrow> truncate x = \<lfloor>x\<rfloor>"
  by (simp add: truncate_def)


section \<open>Runs on concrete inputs\<close>

lemmas loop_eval = linear_loop.simps quantized_loop.simps

text \<open>
  Claim C6 says that no run suspends after its final scheduled attempt. The loop of the
  QUANTIZED branch guards its \<open>time.Sleep\<close> with \<open>i < nIntervals-1\<close>; the loop of the
  LINEAR branch sleeps after every attempt. With 2 units over one second the run is
  LINEAR and schedules one attempt; the order succeeds, and the run then sleeps for a
  second before it logs its completion.
\<close>

theorem linear_sleeps_after_final_attempt:
  "mode_of (Fin 2) Second = LINEAR \<and> sliceCount (Fin 2) Second = 1
   \<and> main_trade always_succeeds (Fin 2) Second
       = (Fin 0, [PlaceOrder (Fin 2) (Fin 2) True, Sleep Second, Completed (Fin 0)])"
  by (simp add: fl_eval run_eval loop_eval)

text \<open>
  Claim C9 says that a run whose orders all succeed makes every scheduled attempt and
  ends with nothing left in LINEAR mode. With 5 units over three seconds the run is LINEAR
  and schedules three attempts of \<open>5/3\<close>, which binary64 rounds up to
  1.6666666666666667. After two successful orders the budget is 1.6666666666666663,
  below the amount of the third attempt: the run logs that the amount is insufficient
  and stops with a third of the budget unspent.
\<close>

theorem linear_all_success_stops_early:
  "mode_of (Fin 5) (3 * Second) = LINEAR \<and> sliceCount (Fin 5) (3 * Second) = 3
   \<and> main_trade always_succeeds (Fin 5) (3 * Second)
       = (Fin (7505999378950825 / 4503599627370496),
          [PlaceOrder (Fin (7505999378950827 / 4503599627370496)) (Fin 5) True,
           Sleep Second,
           PlaceOrder (Fin (7505999378950827 / 4503599627370496))
             (Fin (3752999689475413 / 1125899906842624)) True,
           Sleep Second,
           Insufficient,
           Completed (Fin (7505999378950825 / 4503599627370496))])"
  by (simp add: fl_eval run_eval loop_eval)


text \<open>
  Claim C3 as it is written fails. With 4 units over three seconds, every order
  succeeding, the three attempts are of 1.3333333333333333 each; the first successful
  attempt leaves 2.666666666666667, which is not 4 minus the amount of the attempt, and
  the run ends with \<open>2^-51\<close> left, so that the amounts spent do not add up to the initial
  budget minus the final one.
\<close>

theorem conservation_counterexample:
  "mode_of (Fin 4) (3 * Second) = LINEAR
   \<and> orders (snd (main_trade always_succeeds (Fin 4) (3 * Second)))
       = [(Fin (6004799503160661 / 4503599627370496), Fin 4, True),
          (Fin (6004799503160661 / 4503599627370496),
           Fin (3002399751580331 / 1125899906842624), True),
          (Fin (6004799503160661 / 4503599627370496),
           Fin (6004799503160663 / 4503599627370496), True)]
   \<and> fst (main_trade always_succeeds (Fin 4) (3 * Second)) = Fin (1 / 2251799813685248)
   \<and> spent (orders (snd (main_trade always_succeeds (Fin 4) (3 * Second))))
       \<noteq> 4 - 1 / 2251799813685248
   \<and> (4::rat) - 6004799503160661 / 4503599627370496 \<noteq> 3002399751580331 / 1125899906842624"
  by (simp add: fl_eval run_eval loop_eval)

section \<open>A duration of zero\<close>

lemma Seconds_zero: "Seconds 0 = Fin 0"
  by (simp add: fl_eval run_eval)

lemma main_nothing_quantized:
  "flt (usdtPerSecond a d) (Fin 1) \<Longrightarrow> nIntervals a = 0 \<Longrightarrow> main_trade venue a d = (a, [NothingToDo])"
  by (simp add: main_trade_def)

lemma main_nothing_linear:
  "\<not> flt (usdtPerSecond a d) (Fin 1) \<Longrightarrow> numberOfTrades d = 0
     \<Longrightarrow> main_trade venue a d = (a, [NothingToDo])"
  by (simp add: main_trade_def)

lemma main_quantized:
  "flt (usdtPerSecond a d) (Fin 1) \<Longrightarrow> nIntervals a \<noteq> 0 \<Longrightarrow>
     main_trade venue a d
       = finish (quantized_loop venue (intervalDuration a d) (nIntervals a) 0 a)"
  by (simp add: main_trade_def)

lemma main_linear:
  "\<not> flt (usdtPerSecond a d) (Fin 1) \<Longrightarrow> numberOfTrades d \<noteq> 0 \<Longrightarrow>
     main_trade venue a d
       = finish (linear_loop venue (usdtPerTrade a d) (numberOfTrades d) 0 a)"
  by (simp add: main_trade_def)

lemma truncate_neg: "x < 0 \<Longrightarrow> truncate x \<le> 0"
  by (simp add: truncate_def ceiling_le_iff)

lemma zero_duration_run:
  "fst (main_trade venue a 0) = a \<and> orders (snd (main_trade venue a 0)) = []
   \<and> (snd (main_trade venue a 0) = [NothingToDo] \<or> snd (main_trade venue a 0) = [Completed a])"
proof -
  have n0: "numberOfTrades 0 = 0"
    by (simp add: numberOfTrades_def Seconds_zero truncate_def MinInt64_def MaxInt64_def)
  have lin: "\<not> flt (usdtPerSecond a 0) (Fin 1) \<Longrightarrow> ?thesis"
    by (simp add: main_nothing_linear n0)
  have quant: "flt (usdtPerSecond a 0) (Fin 1) \<Longrightarrow> nIntervals a \<le> 0 \<Longrightarrow> ?thesis"
  proof -
    assume q: "flt (usdtPerSecond a 0) (Fin 1)" and n: "nIntervals a \<le> 0"
    show ?thesis
    proof (cases "nIntervals a = 0")
      case True
      with q show ?thesis by (simp add: main_nothing_quantized)
    next
      case False
      with n have "\<not> 0 < nIntervals a" by simp
      then have "quantized_loop venue (intervalDuration a 0) (nIntervals a) 0 a = (a, [])"
        by (rule quantized_loop_done)
      with q False show ?thesis by (simp add: main_quantized finish_def)
    qed
  qed
  show ?thesis
  proof (cases a)
    case (Fin x)
    consider "x = 0" | "0 < x" | "x < 0" by linarith
    then show ?thesis
    proof cases
      case 1
      then show ?thesis using lin by (simp add: Fin usdtPerSecond_def Seconds_zero)
    next
      case 2
      then show ?thesis using lin by (simp add: Fin usdtPerSecond_def Seconds_zero)
    next
      case 3
      then have "nIntervals a \<le> 0"
        using truncate_neg [of x] by (simp add: Fin nIntervals_def MinInt64_def)
      then show ?thesis using lin quant by blast
    qed
  next
    case PInf
    then show ?thesis using lin by (simp add: usdtPerSecond_def Seconds_zero)
  next
    case NInf
    then have "nIntervals a \<le> 0" by (simp add: nIntervals_def MinInt64_def)
    then show ?thesis using lin quant by blast
  next
    case NaN
    then show ?thesis using lin by (simp add: usdtPerSecond_def Seconds_zero)
  qed
qed

text \<open>
  Claim C10. The text \<open>0s\<close> parses to the zero duration, whose \<open>Seconds\<close> is 0. The
  per-second amount is then a division by zero, which yields an infinity or a NaN and
  no failure (\<open>+Inf\<close> for a budget of 100). Whatever the budget and the venue, the run
  places no order, leaves the budget as it was, and returns normally: either it logs
  that there is nothing to do, or its loop makes no iteration and it logs its completion.
\<close>

theorem zero_duration:
  "parseDuration ''0s'' = Inr 0 \<and> Seconds 0 = Fin 0
   \<and> usdtPerSecond (Fin 100) 0 = PInf
   \<and> (\<forall>venue a. fst (main_trade venue a 0) = a
          \<and> orders (snd (main_trade venue a 0)) = []
          \<and> (snd (main_trade venue a 0) = [NothingToDo]
               \<or> snd (main_trade venue a 0) = [Completed a]))"
proof -
  have "parseDuration ''0s'' = Inr 0" by (simp add: parse_eval run_eval)
  moreover have "usdtPerSecond (Fin 100) 0 = PInf" by (simp add: usdtPerSecond_def Seconds_zero)
  ultimately show ?thesis using Seconds_zero zero_duration_run by blast
qed

section \<open>Runs in general\<close>

lemma orders_snoc_Completed: "orders (xs @ [Completed a]) = orders xs"
  by (simp add: orders_append)


lemma quantized_loop_last:
  "Insufficient \<in> set (snd (quantized_loop venue iv n i a))
     \<Longrightarrow> last (snd (quantized_loop venue iv n i a)) = Insufficient"
proof (induction venue iv n i a rule: quantized_loop.induct)
  case (1 venue iv n i a)
  show ?case
  proof (cases "i < n")
    case False
    with "1.prems" show ?thesis by (simp add: quantized_loop_done)
  next
    case True
    show ?thesis
    proof (cases "flt a (Fin 1)")
      case t: True
      with True show ?thesis by (simp add: quantized_loop_stop)
    next
      case f: False
      from "1.prems" have "Insufficient
          \<in> set (snd (quantized_loop venue iv n (i + 1) (if venue i then fsub a (Fin 1) else a)))"
        by (simp add: quantized_loop_step [OF True f] split: if_splits)
      with "1.IH" [OF True f] show ?thesis
        by (auto simp add: quantized_loop_step [OF True f])
    qed
  qed
qed

lemma main_as_linear:
  assumes "sliceCount a d \<noteq> 0"
  shows "\<exists>L. main_trade venue a d
             = finish (fst (linear_loop venue (sliceSize a d) (sliceCount a d) 0 a), L)
          \<and> orders L = orders (snd (linear_loop venue (sliceSize a d) (sliceCount a d) 0 a))
          \<and> (Insufficient \<in> set L
               \<longleftrightarrow> Insufficient \<in> set (snd (linear_loop venue (sliceSize a d) (sliceCount a d) 0 a)))
          \<and> (Insufficient \<in> set L \<longrightarrow> last L = Insufficient)"
proof (cases "flt (usdtPerSecond a d) (Fin 1)")
  case True
  then have sc: "sliceCount a d = nIntervals a" and ss: "sliceSize a d = Fin 1"
    by (simp_all add: sliceCount_def sliceSize_def)
  let ?q = "quantized_loop venue (intervalDuration a d) (nIntervals a) 0 a"
  have "main_trade venue a d = finish (fst ?q, snd ?q)"
    using True assms by (simp add: main_quantized sc)
  then show ?thesis
    using quantized_as_linear [of venue "intervalDuration a d" "nIntervals a" 0 a]
      quantized_loop_last [of venue "intervalDuration a d" "nIntervals a" 0 a]
    by (intro exI [of _ "snd ?q"]) (simp add: sc ss)
next
  case False
  then have sc: "sliceCount a d = numberOfTrades d" and ss: "sliceSize a d = usdtPerTrade a d"
    by (simp_all add: sliceCount_def sliceSize_def)
  let ?l = "linear_loop venue (usdtPerTrade a d) (numberOfTrades d) 0 a"
  have "main_trade venue a d = finish (fst ?l, snd ?l)"
    using False assms by (simp add: main_linear sc)
  then show ?thesis
    using linear_loop_count [of venue "usdtPerTrade a d" "numberOfTrades d" 0 a]
    by (intro exI [of _ "snd ?l"]) (simp add: sc ss)
qed

lemma main_empty:
  assumes "sliceCount a d = 0"
  shows "main_trade venue a d = (a, [NothingToDo])"
  using assms by (simp add: sliceCount_def main_trade_def split: if_splits)

lemma sliceCount_range: "sliceCount a d \<le> MaxInt64"
  using int_of_f64_range by (simp add: sliceCount_def nIntervals_def numberOfTrades_def)

lemma sliceSize_amount:
  assumes "is_amount a" and "1 \<le> sliceCount a d"
  shows "is_amount (sliceSize a d)"
proof (cases "flt (usdtPerSecond a d) (Fin 1)")
  case True
  then have "sliceSize a d = Fin 1" by (simp add: sliceSize_def)
  then show ?thesis by (simp only: is_amount_one)
next
  case False
  with assms(2) have "1 \<le> numberOfTrades d" by (simp add: sliceCount_def)
  moreover have "numberOfTrades d \<le> MaxInt64"
    using int_of_f64_range by (simp add: numberOfTrades_def)
  ultimately have "is_amount (fdiv a (f64_of_int (numberOfTrades d)))"
    using assms(1) by (intro fdiv_amount)
  with False show ?thesis by (simp add: sliceSize_def usdtPerTrade_def)
qed

lemma main_loop_amounts:
  assumes a: "is_amount a" and n: "sliceCount a d \<noteq> 0"
  shows "is_amount (fst (linear_loop venue (sliceSize a d) (sliceCount a d) 0 a))
     \<and> fle (fst (linear_loop venue (sliceSize a d) (sliceCount a d) 0 a)) a
     \<and> chained a (orders (snd (linear_loop venue (sliceSize a d) (sliceCount a d) 0 a)))
          (fst (linear_loop venue (sliceSize a d) (sliceCount a d) 0 a))
     \<and> list_all (\<lambda>x. fle (fst x) (fst (snd x)))
          (orders (snd (linear_loop venue (sliceSize a d) (sliceCount a d) 0 a)))"
proof (cases "1 \<le> sliceCount a d")
  case True
  with a have "is_amount (sliceSize a d)" by (rule sliceSize_amount)
  then show ?thesis using a by (rule linear_loop_amounts)
next
  case False
  then have "\<not> 0 < sliceCount a d" by simp
  then have "linear_loop venue (sliceSize a d) (sliceCount a d) 0 a = (a, [])"
    by (rule linear_loop_done)
  then show ?thesis using a by (simp add: fle_refl)
qed

text \<open>
  Claim C5. For every finite, non-negative binary64 budget, every duration and every
  venue: each order that the run places is for the quantity \<open>sliceSize\<close>
  (\<open>usdtPerTrade\<close> in LINEAR mode, 1.0 in QUANTIZED mode), which is at most the budget
  remaining at that moment; when the budget check fails, fewer than \<open>sliceCount\<close> orders
  have been placed, the remaining budget is below the quantity of an attempt, and the
  run still ends with its completion line (or, for an empty plan, with "nothing to
  do"); and a run that never fails the check places all its \<open>sliceCount\<close> orders.
\<close>

theorem budget_check_before_each_attempt:
  assumes "is_amount a"
  shows "map fst (orders (snd (main_trade venue a d)))
       = replicate (length (orders (snd (main_trade venue a d)))) (sliceSize a d)
     \<and> list_all (\<lambda>x. fle (fst x) (fst (snd x))) (orders (snd (main_trade venue a d)))
     \<and> (Insufficient \<in> set (snd (main_trade venue a d)) \<longrightarrow>
           int (length (orders (snd (main_trade venue a d)))) < sliceCount a d
         \<and> flt (fst (main_trade venue a d)) (sliceSize a d)
         \<and> last (butlast (snd (main_trade venue a d))) = Insufficient)
     \<and> (Insufficient \<notin> set (snd (main_trade venue a d)) \<and> 0 \<le> sliceCount a d \<longrightarrow>
           int (length (orders (snd (main_trade venue a d)))) = sliceCount a d)
     \<and> (snd (main_trade venue a d) = [NothingToDo]
          \<or> last (snd (main_trade venue a d)) = Completed (fst (main_trade venue a d)))"
proof (cases "sliceCount a d = 0")
  case True
  then show ?thesis by (simp add: main_empty)
next
  case False
  let ?l = "linear_loop venue (sliceSize a d) (sliceCount a d) 0 a"
  from main_as_linear [OF False, of venue] obtain L where
    m: "main_trade venue a d = finish (fst ?l, L)" and
    o: "orders L = orders (snd ?l)" and
    i: "Insufficient \<in> set L \<longleftrightarrow> Insufficient \<in> set (snd ?l)" and
    l: "Insufficient \<in> set L \<longrightarrow> last L = Insufficient"
    by blast
  have ev: "snd (main_trade venue a d) = L @ [Completed (fst ?l)]"
    and fin: "fst (main_trade venue a d) = fst ?l"
    by (simp_all add: m finish_def)
  from main_loop_amounts [OF assms False, of venue]
  have am: "list_all (\<lambda>x. fle (fst x) (fst (snd x))) (orders (snd ?l))" by simp
  from linear_loop_count [of venue "sliceSize a d" "sliceCount a d" 0 a]
  have c1: "Insufficient \<in> set (snd ?l) \<longrightarrow>
        int (length (orders (snd ?l))) < sliceCount a d \<and> flt (fst ?l) (sliceSize a d)"
    and c2: "Insufficient \<notin> set (snd ?l) \<longrightarrow> 0 \<le> sliceCount a d \<longrightarrow>
        int (length (orders (snd ?l))) = sliceCount a d"
    by simp_all
  from linear_loop_events [of venue "sliceSize a d" "sliceCount a d" 0 a]
  have q: "map fst (orders (snd ?l)) = replicate (length (orders (snd ?l))) (sliceSize a d)"
    by simp
  show ?thesis
    using am c1 c2 i l q by (simp add: ev fin orders_snoc_Completed o)
qed

lemma spent_unit:
  "map fst xs = replicate (length xs) (Fin 1) \<Longrightarrow> spent xs = of_nat (length (filter succeeded xs))"
proof (induction xs)
  case Nil
  then show ?case by (simp add: spent_def)
next
  case (Cons x xs)
  then have "fst x = Fin 1" and "map fst xs = replicate (length xs) (Fin 1)" by simp_all
  with Cons.IH show ?case by (simp add: spent_def)
qed

text \<open>
  Claim C3, as the code has it. For every finite, non-negative binary64 budget, every
  duration and every venue, the attempts of the run form a chain: the first attempt sees
  the initial budget; a successful attempt leaves the binary64 difference of the budget
  and its quantity, a failed one leaves the budget as it was; what an attempt leaves is
  never more than what it saw; each attempt sees what the previous one left, and the
  last one leaves the final budget, which is therefore at most the initial one. In
  QUANTIZED mode with a budget below \<open>2^53\<close> every subtraction is exact, and the
  quantities of the successful attempts add up to the initial budget minus the final one.
\<close>

theorem budget_bookkeeping:
  assumes "is_amount a"
  shows "chained a (orders (snd (main_trade venue a d))) (fst (main_trade venue a d))
     \<and> fle (fst (main_trade venue a d)) a
     \<and> (mode_of a d = QUANTIZED \<and> amount_of a < 2 ^ 53 \<longrightarrow>
          fst (main_trade venue a d)
            = Fin (amount_of a - spent (orders (snd (main_trade venue a d)))))"
proof (cases "sliceCount a d = 0")
  case True
  then show ?thesis using assms by (cases a) (simp_all add: main_empty spent_def)
next
  case False
  let ?l = "linear_loop venue (sliceSize a d) (sliceCount a d) 0 a"
  from main_as_linear [OF False, of venue] obtain L where
    m: "main_trade venue a d = finish (fst ?l, L)" and
    o: "orders L = orders (snd ?l)"
    by blast
  have ev: "orders (snd (main_trade venue a d)) = orders (snd ?l)"
    and fin: "fst (main_trade venue a d) = fst ?l"
    by (simp_all add: m finish_def orders_snoc_Completed o)
  from main_loop_amounts [OF assms False, of venue]
  have ch: "chained a (orders (snd ?l)) (fst ?l)" and le: "fle (fst ?l) a" by simp_all
  have ex: "fst ?l = Fin (amount_of a - spent (orders (snd ?l)))"
    if q: "mode_of a d = QUANTIZED" and b: "amount_of a < 2 ^ 53"
  proof -
    from assms obtain x where x: "a = Fin x" "is_f64 x" "0 \<le> x" by (cases a) simp_all
    from q have s1: "sliceSize a d = Fin 1"
      by (simp add: mode_of_def sliceSize_def split: if_splits)
    have "map fst (orders (snd ?l)) = replicate (length (orders (snd ?l))) (Fin 1)"
      using linear_loop_events [of venue "Fin 1" "sliceCount a d" 0 a] by (simp add: s1)
    then have "spent (orders (snd ?l)) = of_nat (length (filter succeeded (orders (snd ?l))))"
      by (rule spent_unit)
    moreover have "fst (linear_loop venue (Fin 1) (sliceCount a d) 0 a)
        = Fin (amount_of a - of_nat (length (filter succeeded
            (orders (snd (linear_loop venue (Fin 1) (sliceCount a d) 0 a))))))"
      using unit_loop_exact [of x venue "sliceCount a d" 0] x b by simp
    ultimately show ?thesis by (simp add: s1)
  qed
  show ?thesis using ch le ex by (simp add: ev fin)
qed

section \<open>What failures and successes do to the number of attempts\<close>


text \<open>
  In QUANTIZED mode the defect of the LINEAR loop cannot show: the subtractions of 1.0 are
  exact. From a budget of at least \<open>n - i\<close>, below \<open>2^53\<close>, the loop places all its
  \<open>n - i\<close> orders, whatever the venue does.
\<close>

lemma unit_loop_all_attempts:
  "is_f64 x \<Longrightarrow> x < 2 ^ 53 \<Longrightarrow> of_int (n - i) \<le> x \<Longrightarrow>
   Insufficient \<notin> set (snd (linear_loop venue (Fin 1) n i (Fin x)))"
proof (induction "nat (n - i)" arbitrary: i x)
  case 0
  then have "\<not> i < n" by simp
  then show ?case by (simp add: linear_loop_done)
next
  case (Suc k)
  then have lt: "i < n" by simp
  then have "(1::rat) \<le> of_int (n - i)" by simp
  with Suc.prems(3) have x1: "1 \<le> x" by linarith
  then have nf: "\<not> flt (Fin x) (Fin 1)" by simp
  have k: "k = nat (n - (i + 1))" using Suc.hyps(2) by simp
  show ?case
  proof (cases "venue i")
    case True
    have r: "is_f64 (x - 1)" using Suc.prems(1) x1 Suc.prems(2) by (rule is_f64_minus_one)
    then have sub: "fsub (Fin x) (Fin 1) = Fin (x - 1)" by (simp add: fsub_def fl_repr)
    have "x - 1 < 2 ^ 53" using Suc.prems(2) by simp
    moreover have "of_int (n - (i + 1)) \<le> x - 1" using Suc.prems(3) by simp
    ultimately have "Insufficient
        \<notin> set (snd (linear_loop venue (Fin 1) n (i + 1) (Fin (x - 1))))"
      using Suc.hyps(1) [OF k r] by simp
    then show ?thesis
      using True by (simp add: linear_loop_step [OF lt nf] sub)
  next
    case False
    have "of_int (n - (i + 1)) \<le> x" using Suc.prems(3) by simp
    then have "Insufficient \<notin> set (snd (linear_loop venue (Fin 1) n (i + 1) (Fin x)))"
      using Suc.hyps(1) [OF k Suc.prems(1,2)] by simp
    then show ?thesis
      using False by (simp add: linear_loop_step [OF lt nf])
  qed
qed

lemma quantized_all_success_complete:
  assumes a: "is_f64 b" "0 \<le> b" "b < 2 ^ 53"
    and q: "flt (usdtPerSecond (Fin b) d) (Fin 1)"
  shows "int (length (orders (snd (main_trade always_succeeds (Fin b) d)))) = \<lfloor>b\<rfloor>
     \<and> fst (main_trade always_succeeds (Fin b) d) = Fin (b - of_int \<lfloor>b\<rfloor>)"
proof -
  have fb: "0 \<le> \<lfloor>b\<rfloor>" "\<lfloor>b\<rfloor> < 2 ^ 53" using a(2,3) by (simp_all add: floor_less_iff)
  have n: "nIntervals (Fin b) = \<lfloor>b\<rfloor>"
    using fb a(2) by (simp add: nIntervals_def truncate_nonneg MinInt64_def MaxInt64_def)
  have sc: "sliceCount (Fin b) d = \<lfloor>b\<rfloor>" and ss: "sliceSize (Fin b) d = Fin 1"
    and md: "mode_of (Fin b) d = QUANTIZED"
    using q by (simp_all add: sliceCount_def sliceSize_def mode_of_def n)
  have am: "is_amount (Fin b)" using a by simp
  show ?thesis
  proof (cases "\<lfloor>b\<rfloor> = 0")
    case True
    then have "main_trade always_succeeds (Fin b) d = (Fin b, [NothingToDo])"
      using q by (simp add: main_nothing_quantized n)
    with True show ?thesis by simp
  next
    case False
    then have nz: "sliceCount (Fin b) d \<noteq> 0" by (simp add: sc)
    let ?l = "linear_loop always_succeeds (Fin 1) \<lfloor>b\<rfloor> 0 (Fin b)"
    from main_as_linear [OF nz, of always_succeeds] obtain L where
      m: "main_trade always_succeeds (Fin b) d = finish (fst ?l, L)" and
      o: "orders L = orders (snd ?l)"
      by (auto simp: sc ss)
    have ev: "orders (snd (main_trade always_succeeds (Fin b) d)) = orders (snd ?l)"
      and fin: "fst (main_trade always_succeeds (Fin b) d) = fst ?l"
      by (simp_all add: m finish_def orders_snoc_Completed o)
    have "of_int (\<lfloor>b\<rfloor> - 0) \<le> b" by simp
    with a(1,3) have ni: "Insufficient \<notin> set (snd ?l)" by (rule unit_loop_all_attempts)
    with linear_loop_count [of always_succeeds "Fin 1" "\<lfloor>b\<rfloor>" 0 "Fin b"] fb(1)
    have len: "int (length (orders (snd ?l))) = \<lfloor>b\<rfloor>" by simp
    have "filter succeeded (orders (snd ?l)) = orders (snd ?l)"
    proof -
      have "list_all succeeded (orders (snd (linear_loop always_succeeds s n i x)))" for s n i x
      proof (induction always_succeeds s n i x rule: linear_loop.induct)
        case (1 s n i x)
        show ?case
        proof (cases "i < n \<and> \<not> flt x s")
          case True
          with "1.hyps" show ?thesis
            by (simp add: linear_loop_step succeeded_def always_succeeds_def)
        next
          case False
          then show ?thesis
            by (cases "i < n") (simp_all add: linear_loop_done linear_loop_stop)
        qed
      qed
      then show ?thesis by (simp add: list_all_iff filter_id_conv)
    qed
    then have "fst ?l = Fin (b - of_nat (length (orders (snd ?l))))"
      using unit_loop_exact [OF a(1,2,3), of always_succeeds "\<lfloor>b\<rfloor>" 0] by simp
    moreover have "(of_nat (length (orders (snd ?l))) :: rat) = of_int \<lfloor>b\<rfloor>"
      using len by (metis of_int_of_nat_eq)
    ultimately show ?thesis using len by (simp add: ev fin)
  qed
qed


text \<open>
  The sleeps of the two loops. A QUANTIZED loop that makes all its attempts ends with an
  order: it does not sleep after the final attempt. A LINEAR loop that makes all its
  attempts ends with a sleep of one second.
\<close>

lemma quantized_loop_nonempty: "i < n \<Longrightarrow> snd (quantized_loop venue iv n i a) \<noteq> []"
  by (cases "flt a (Fin 1)") (simp_all add: quantized_loop_stop quantized_loop_step)

lemma quantized_loop_ends_with_order:
  "i < n \<Longrightarrow> Insufficient \<notin> set (snd (quantized_loop venue iv n i a))
     \<Longrightarrow> \<exists>q av ok. last (snd (quantized_loop venue iv n i a)) = PlaceOrder q av ok"
proof (induction venue iv n i a rule: quantized_loop.induct)
  case (1 venue iv n i a)
  from "1.prems" have lt: "i < n" by simp
  have f: "\<not> flt a (Fin 1)"
  proof
    assume "flt a (Fin 1)"
    with lt "1.prems"(2) show False by (simp add: quantized_loop_stop)
  qed
  let ?rest = "quantized_loop venue iv n (i + 1) (after (Fin 1, a, venue i))"
  show ?case
  proof (cases "i + 1 < n")
    case True
    then have ne: "snd ?rest \<noteq> []" by (rule quantized_loop_nonempty)
    from "1.prems"(2) have "Insufficient \<notin> set (snd ?rest)"
      by (simp add: quantized_loop_step [OF lt f])
    with "1.IH" [OF lt f True] have "\<exists>q av ok. last (snd ?rest) = PlaceOrder q av ok"
      by simp
    with ne show ?thesis by (simp add: quantized_loop_step [OF lt f])
  next
    case False
    then have "?rest = (after (Fin 1, a, venue i), [])" by (rule quantized_loop_done)
    with False show ?thesis by (simp add: quantized_loop_step [OF lt f])
  qed
qed

lemma linear_loop_ends_with_sleep:
  "i < n \<Longrightarrow> Insufficient \<notin> set (snd (linear_loop venue s n i a))
     \<Longrightarrow> last (snd (linear_loop venue s n i a)) = Sleep Second"
proof (induction venue s n i a rule: linear_loop.induct)
  case (1 venue s n i a)
  from "1.prems" have lt: "i < n" by simp
  have f: "\<not> flt a s"
  proof
    assume "flt a s"
    with lt "1.prems"(2) show False by (simp add: linear_loop_stop)
  qed
  let ?rest = "linear_loop venue s n (i + 1) (after (s, a, venue i))"
  show ?case
  proof (cases "i + 1 < n")
    case True
    from "1.prems"(2) have "Insufficient \<notin> set (snd ?rest)"
      by (simp add: linear_loop_step [OF lt f])
    with "1.IH" [OF lt f True] have "last (snd ?rest) = Sleep Second" by simp
    moreover have "snd ?rest \<noteq> []"
      using True by (cases "flt (after (s, a, venue i)) s")
        (simp_all add: linear_loop_stop linear_loop_step)
    ultimately show ?thesis by (simp add: linear_loop_step [OF lt f])
  next
    case False
    then have "?rest = (after (s, a, venue i), [])" by (rule linear_loop_done)
    then show ?thesis by (simp add: linear_loop_step [OF lt f])
  qed
qed









lemma is_amount_five: "is_amount (Fin 5)"
  by (simp add: is_f64_def fl_eval)

lemma run_5_3s_stops:
  "Insufficient \<in> set (snd (main_trade always_succeeds (Fin 5) (3 * Second)))"
  by (simp add: fl_eval run_eval loop_eval)

lemma run_5_1h_complete:
  "Insufficient \<notin> set (snd (main_trade every_third_fails (Fin 5) (3600 * Second)))
   \<and> 0 \<le> sliceCount (Fin 5) (3600 * Second)"
  by (simp add: fl_eval run_eval loop_eval)

lemma run_5_1h_quantized:
  "mode_of (Fin 5) (3600 * Second) = QUANTIZED \<and> amount_of (Fin 5) < 2 ^ 53"
  by (simp add: fl_eval run_eval)

theorem budget_check_before_each_attempt_witness:
  "is_amount (Fin 5)
   \<and> Insufficient \<in> set (snd (main_trade always_succeeds (Fin 5) (3 * Second)))
   \<and> int (length (orders (snd (main_trade always_succeeds (Fin 5) (3 * Second)))))
        < sliceCount (Fin 5) (3 * Second)
   \<and> flt (fst (main_trade always_succeeds (Fin 5) (3 * Second))) (sliceSize (Fin 5) (3 * Second))
   \<and> last (butlast (snd (main_trade always_succeeds (Fin 5) (3 * Second)))) = Insufficient
   \<and> list_all (\<lambda>x. fle (fst x) (fst (snd x)))
        (orders (snd (main_trade always_succeeds (Fin 5) (3 * Second))))
   \<and> map fst (orders (snd (main_trade always_succeeds (Fin 5) (3 * Second))))
        = replicate (length (orders (snd (main_trade always_succeeds (Fin 5) (3 * Second)))))
            (sliceSize (Fin 5) (3 * Second))
   \<and> Insufficient \<notin> set (snd (main_trade every_third_fails (Fin 5) (3600 * Second)))
   \<and> 0 \<le> sliceCount (Fin 5) (3600 * Second)
   \<and> int (length (orders (snd (main_trade every_third_fails (Fin 5) (3600 * Second)))))
        = sliceCount (Fin 5) (3600 * Second)"
  using budget_check_before_each_attempt [OF is_amount_five, of always_succeeds "3 * Second"]
    budget_check_before_each_attempt [OF is_amount_five, of every_third_fails "3600 * Second"]
    is_amount_five run_5_3s_stops run_5_1h_complete
  by blast

theorem budget_bookkeeping_witness:
  "is_amount (Fin 5)
   \<and> mode_of (Fin 5) (3600 * Second) = QUANTIZED \<and> amount_of (Fin 5) < 2 ^ 53
   \<and> chained (Fin 5) (orders (snd (main_trade every_third_fails (Fin 5) (3600 * Second))))
        (fst (main_trade every_third_fails (Fin 5) (3600 * Second)))
   \<and> fle (fst (main_trade every_third_fails (Fin 5) (3600 * Second))) (Fin 5)
   \<and> fst (main_trade every_third_fails (Fin 5) (3600 * Second))
        = Fin (amount_of (Fin 5)
               - spent (orders (snd (main_trade every_third_fails (Fin 5) (3600 * Second)))))"
  using budget_bookkeeping [OF is_amount_five, of every_third_fails "3600 * Second"]
    is_amount_five run_5_1h_quantized
  by blast















section \<open>The QUANTIZED plan\<close>












lemma floor_five: "\<lfloor>(5::rat) / 1\<rfloor> = 5"
  by simp



section \<open>Failed orders\<close>






end
